theory Spec2Isabelle
  imports Main "HOL-Library.Word" "HOL-Library.Sublist"
begin

section \<open>The Generator of package gen (gen.go)\<close>

text \<open>
  The package has one type, \<^verbatim>\<open>Generator\<close>, and a fluent set of methods on a pointer to
  it. A method mutates the receiver in place and returns it, so the model passes the
  state explicitly: every method takes the Generator and gives the updated one back.

  \<^item> \<^verbatim>\<open>strings.Builder\<close> is the list of bytes written so far; \<^verbatim>\<open>WriteString\<close> appends.
  \<^item> Go's \<^verbatim>\<open>int\<close> is a two's complement machine integer whose arithmetic wraps around
    silently. It is modelled at 64 bits, its width on the common targets (on a 32-bit
    target the same wrap-around happens at 32 bits).
  \<^item> A panic unwinds the call stack but leaves the mutations made so far in the
    receiver, where a caller that recovers can see them. A method that may panic
    therefore returns an outcome together with the state it leaves behind.
  \<^item> Memory is unbounded: a string that exists is a list of any length, and appending
    to the buffer never fails. The checks that \<^verbatim>\<open>strings.Repeat\<close> and the runtime make on
    the size of a string before they build it are part of the model: they panic, and a
    caller can recover from them.
\<close>

type_synonym go_int = "64 word"

datatype outcome = Returned | Panicked string

record Generator =
  sb :: string
  indentLevel :: go_int
  indentString :: string
  atStartOfLine :: bool

type_synonym result = "outcome \<times> Generator"

abbreviation newline :: char where
  "newline \<equiv> CHR 0x0A"

subsection \<open>The functions of package strings that gen.go calls\<close>

text \<open>
  \<^verbatim>\<open>strings.Repeat(s, count)\<close> (Go 1.22) returns \<^verbatim>\<open>count\<close> copies of \<^verbatim>\<open>s\<close>. In the order
  of its body: for a count of 0 it returns the empty string and for a count of 1 the
  string itself; it panics for a negative count; it panics when \<^verbatim>\<open>len(s) * count\<close> does
  not fit an \<^verbatim>\<open>int\<close>; it returns the empty string for an empty \<^verbatim>\<open>s\<close>; and it reserves
  the result with \<^verbatim>\<open>strings.Builder.Grow\<close>, where the runtime panics when the length is
  above \<^verbatim>\<open>maxAlloc\<close>, the largest size of one allocation: \<open>2 ^ 48\<close> bytes on the 64-bit
  targets with 48 address bits (amd64, arm64). All three panics come before the result
  is built. A result of at most \<^verbatim>\<open>maxAlloc\<close> bytes is built: memory is unbounded.
\<close>

definition maxAlloc :: nat where
  "maxAlloc = 2 ^ 48"

definition Repeat :: "string \<Rightarrow> go_int \<Rightarrow> string + string" where
  "Repeat s count =
     (if count = 0 then Inr []
      else if count = 1 then Inr s
      else if sint count < 0 then Inl ''strings: negative Repeat count''
      else if 2 ^ 63 \<le> length s * nat (sint count) then
        Inl ''strings: Repeat output length overflow''
      else if length s = 0 then Inr []
      else if maxAlloc < length s * nat (sint count) then
        Inl ''runtime error: makeslice: len out of range''
      else Inr (concat (replicate (nat (sint count)) s)))"

text \<open>
  \<^verbatim>\<open>strings.HasSuffix(s, suffix)\<close> is
  \<^verbatim>\<open>len(s) >= len(suffix) && s[len(s)-len(suffix):] == suffix\<close>.
\<close>

definition HasSuffix :: "string \<Rightarrow> string \<Rightarrow> bool" where
  "HasSuffix s suf =
     (length suf \<le> length s \<and> drop (length s - length suf) s = suf)"

text \<open>
  \<^verbatim>\<open>strings.Split(s, sep)\<close> for the one-byte separator gen.go passes: the piece before
  the first separator, then the split of what follows it; a string without separator
  is its own single piece. The result is never empty.
\<close>

fun Split :: "string \<Rightarrow> char \<Rightarrow> string list" where
  "Split [] sep = [[]]"
| "Split (c # cs) sep =
     (if c = sep then [] # Split cs sep
      else (case Split cs sep of
              [] \<Rightarrow> [[c]]
            | piece # pieces \<Rightarrow> (c # piece) # pieces))"

subsection \<open>Construction and configuration\<close>

definition New :: Generator where
  "New = \<lparr>sb = [], indentLevel = 0, indentString = ''  '', atStartOfLine = True\<rparr>"

definition WithSpaces :: "Generator \<Rightarrow> go_int \<Rightarrow> result" where
  "WithSpaces g spaces =
     (case Repeat '' '' spaces of
        Inl msg \<Rightarrow> (Panicked msg, g)
      | Inr unit \<Rightarrow> (Returned, g\<lparr>indentString := unit\<rparr>))"

definition WithTabs :: "Generator \<Rightarrow> Generator" where
  "WithTabs g = g\<lparr>indentString := [CHR 0x09]\<rparr>"

subsection \<open>Depth control\<close>

definition Indent :: "Generator \<Rightarrow> Generator" where
  "Indent g = g\<lparr>indentLevel := indentLevel g + 1\<rparr>"

definition Dedent :: "Generator \<Rightarrow> Generator" where
  "Dedent g =
     (if 0 < sint (indentLevel g) then g\<lparr>indentLevel := indentLevel g - 1\<rparr> else g)"

subsection \<open>Writes\<close>

definition Raw :: "Generator \<Rightarrow> string \<Rightarrow> Generator" where
  "Raw g content =
     (if content = [] then g
      else
        (let g1 = g\<lparr>sb := sb g @ content\<rparr>
         in if HasSuffix content [newline] then g1\<lparr>atStartOfLine := True\<rparr>
            else g1\<lparr>atStartOfLine := False\<rparr>))"

definition Break :: "Generator \<Rightarrow> Generator" where
  "Break g = g\<lparr>sb := sb g @ [newline], atStartOfLine := True\<rparr>"

text \<open>
  The body of the loop of \<^verbatim>\<open>Inline\<close>, for the sub-line at index \<open>idx\<close>. The only call
  that can panic is the one of \<^verbatim>\<open>strings.Repeat\<close>; by then the break of this sub-line
  is already in the buffer.
\<close>

definition Inline_step :: "Generator \<Rightarrow> nat \<Rightarrow> string \<Rightarrow> result" where
  "Inline_step g idx subline =
     (let g1 = (if 0 < idx then g\<lparr>sb := sb g @ [newline], atStartOfLine := True\<rparr> else g)
      in if subline \<noteq> [] then
           (if atStartOfLine g1 then
              (case Repeat (indentString g1) (indentLevel g1) of
                 Inl msg \<Rightarrow> (Panicked msg, g1)
               | Inr indentation \<Rightarrow>
                   (Returned,
                    g1\<lparr>sb := (sb g1 @ indentation) @ subline, atStartOfLine := False\<rparr>))
            else (Returned, g1\<lparr>sb := sb g1 @ subline, atStartOfLine := False\<rparr>))
         else (Returned, g1))"

fun Inline_loop :: "Generator \<Rightarrow> nat \<Rightarrow> string list \<Rightarrow> result" where
  "Inline_loop g idx [] = (Returned, g)"
| "Inline_loop g idx (subline # sublines) =
     (case Inline_step g idx subline of
        (Panicked msg, g1) \<Rightarrow> (Panicked msg, g1)
      | (Returned, g1) \<Rightarrow> Inline_loop g1 (Suc idx) sublines)"

definition Inline :: "Generator \<Rightarrow> string \<Rightarrow> result" where
  "Inline g content =
     (if content = [] then (Returned, g)
      else
        (case Inline_loop g 0 (Split content newline) of
           (Panicked msg, g1) \<Rightarrow> (Panicked msg, g1)
         | (Returned, g1) \<Rightarrow>
             (Returned, if HasSuffix content [newline] then g1\<lparr>atStartOfLine := True\<rparr> else g1)))"

definition Line :: "Generator \<Rightarrow> string \<Rightarrow> result" where
  "Line g content =
     (case Inline g content of
        (Panicked msg, g1) \<Rightarrow> (Panicked msg, g1)
      | (Returned, g1) \<Rightarrow> (Returned, Break g1))"

subsection \<open>Scoped indentation\<close>

text \<open>
  The callback is any Go closure; it reaches the Generator through the same pointer, so
  it is a function from the state it finds to the state it leaves, with its outcome.
  \<^verbatim>\<open>Block\<close> calls \<^verbatim>\<open>Dedent\<close> in a plain statement after the call of \<^verbatim>\<open>fn\<close>, not in a
  deferred one: a panic of \<^verbatim>\<open>fn\<close> leaves \<^verbatim>\<open>Block\<close> before that statement.
\<close>

definition Block :: "Generator \<Rightarrow> (Generator \<Rightarrow> result) \<Rightarrow> result" where
  "Block g fn =
     (case fn (Indent g) of
        (Panicked msg, g1) \<Rightarrow> (Panicked msg, g1)
      | (Returned, g1) \<Rightarrow> (Returned, Dedent g1))"

subsection \<open>Materialization\<close>

definition String :: "Generator \<Rightarrow> string" where
  "String g = sb g"

subsection \<open>Formatted variants\<close>

text \<open>
  The formatted variants pass the result of \<^verbatim>\<open>fmt.Sprintf\<close> to the base method.
  \<^verbatim>\<open>fmt.Sprintf\<close> has the Go type \<^verbatim>\<open>func(format string, a ...any) string\<close>: it returns a
  string for every template and every argument list and has no error result. Where a
  verb and its argument do not match it writes a diagnostic into the string it returns
  (package fmt, section "Format errors"): \<^verbatim>\<open>%!d(string=hi)\<close> for a wrong type,
  \<^verbatim>\<open>%!d(MISSING)\<close> for a missing argument, \<^verbatim>\<open>%!(EXTRA string=guys)\<close> for arguments left
  over, \<^verbatim>\<open>%!(NOVERB)\<close> for a lone percent sign at the end.

  The model covers a fragment of the template language: the verbs \<^verbatim>\<open>%s\<close>, \<^verbatim>\<open>%d\<close>, \<^verbatim>\<open>%v\<close>
  and \<^verbatim>\<open>%%\<close> without flags, width or precision, on string and integer arguments.
  \<open>doPrintf\<close> is \<open>None\<close> on a template outside the fragment, and \<open>Sprintf\<close> is left
  unspecified there: what is proved of the formatted variants holds whatever
  \<^verbatim>\<open>fmt.Sprintf\<close> returns.
\<close>

datatype go_value = GoString string | GoInt int

definition digit_char :: "nat \<Rightarrow> char" where
  "digit_char d = char_of (of_char (CHR ''0'') + d)"

fun decimal_nat :: "nat \<Rightarrow> string" where
  "decimal_nat n = (if n < 10 then [digit_char n] else decimal_nat (n div 10) @ [digit_char (n mod 10)])"

declare decimal_nat.simps [simp del]

definition decimal :: "int \<Rightarrow> string" where
  "decimal i = (if i < 0 then CHR ''-'' # decimal_nat (nat (- i)) else decimal_nat (nat i))"

fun type_name :: "go_value \<Rightarrow> string" where
  "type_name (GoString s) = ''string''"
| "type_name (GoInt i) = ''int''"

fun print_v :: "go_value \<Rightarrow> string" where
  "print_v (GoString s) = s"
| "print_v (GoInt i) = decimal i"

definition badVerb :: "char \<Rightarrow> go_value \<Rightarrow> string" where
  "badVerb verb arg = ''%!'' @ [verb] @ ''('' @ type_name arg @ ''='' @ print_v arg @ '')''"

fun printArg :: "go_value \<Rightarrow> char \<Rightarrow> string" where
  "printArg (GoString s) verb =
     (if verb = CHR ''v'' \<or> verb = CHR ''s'' then s else badVerb verb (GoString s))"
| "printArg (GoInt i) verb =
     (if verb = CHR ''v'' \<or> verb = CHR ''d'' then decimal i else badVerb verb (GoInt i))"

fun extra_list :: "go_value list \<Rightarrow> string" where
  "extra_list [] = []"
| "extra_list [arg] = type_name arg @ ''='' @ print_v arg"
| "extra_list (arg # args) = type_name arg @ ''='' @ print_v arg @ '', '' @ extra_list args"

definition extra_args :: "go_value list \<Rightarrow> string" where
  "extra_args a = (if a = [] then [] else ''%!(EXTRA '' @ extra_list a @ '')'')"

fun doPrintf :: "string \<Rightarrow> go_value list \<Rightarrow> string option" where
  "doPrintf [] a = Some (extra_args a)"
| "doPrintf [c] a =
     Some (if c = CHR ''%'' then ''%!(NOVERB)'' @ extra_args a else c # extra_args a)"
| "doPrintf (c # verb # rest) a =
     (if c \<noteq> CHR ''%'' then map_option ((#) c) (doPrintf (verb # rest) a)
      else if verb = CHR ''%'' then map_option ((#) CHR ''%'') (doPrintf rest a)
      else if verb = CHR ''s'' \<or> verb = CHR ''d'' \<or> verb = CHR ''v'' then
        (case a of
           [] \<Rightarrow> map_option ((@) (''%!'' @ [verb] @ ''(MISSING)'')) (doPrintf rest [])
         | arg # args \<Rightarrow> map_option ((@) (printArg arg verb)) (doPrintf rest args))
      else None)"

definition Sprintf :: "string \<Rightarrow> go_value list \<Rightarrow> string" where
  "Sprintf format a = (case doPrintf format a of Some s \<Rightarrow> s | None \<Rightarrow> undefined)"

definition Rawf :: "Generator \<Rightarrow> string \<Rightarrow> go_value list \<Rightarrow> Generator" where
  "Rawf g format args = Raw g (Sprintf format args)"

definition Inlinef :: "Generator \<Rightarrow> string \<Rightarrow> go_value list \<Rightarrow> result" where
  "Inlinef g format args = Inline g (Sprintf format args)"

definition Linef :: "Generator \<Rightarrow> string \<Rightarrow> go_value list \<Rightarrow> result" where
  "Linef g format args = Line g (Sprintf format args)"

subsection \<open>Sequences of operations\<close>

text \<open>
  A client of the package calls the methods one after the other on one Generator; the
  callback of \<^verbatim>\<open>Block\<close> is such a sequence again. A panic ends the sequence and leaves
  the Generator as it is at that point.
\<close>

datatype op =
    OpWithSpaces go_int
  | OpWithTabs
  | OpIndent
  | OpDedent
  | OpRaw string
  | OpRawf string "go_value list"
  | OpBreak
  | OpInline string
  | OpInlinef string "go_value list"
  | OpLine string
  | OpLinef string "go_value list"
  | OpBlock "op list"

fun run_op :: "op \<Rightarrow> Generator \<Rightarrow> result"
  and run_ops :: "op list \<Rightarrow> Generator \<Rightarrow> result" where
  "run_op (OpWithSpaces n) g = WithSpaces g n"
| "run_op OpWithTabs g = (Returned, WithTabs g)"
| "run_op OpIndent g = (Returned, Indent g)"
| "run_op OpDedent g = (Returned, Dedent g)"
| "run_op (OpRaw content) g = (Returned, Raw g content)"
| "run_op (OpRawf format args) g = (Returned, Rawf g format args)"
| "run_op OpBreak g = (Returned, Break g)"
| "run_op (OpInline content) g = Inline g content"
| "run_op (OpInlinef format args) g = Inlinef g format args"
| "run_op (OpLine content) g = Line g content"
| "run_op (OpLinef format args) g = Linef g format args"
| "run_op (OpBlock body) g = Block g (\<lambda>g1. run_ops body g1)"
| "run_ops [] g = (Returned, g)"
| "run_ops (x # xs) g =
     (case run_op x g of
        (Panicked msg, g1) \<Rightarrow> (Panicked msg, g1)
      | (Returned, g1) \<Rightarrow> run_ops xs g1)"

text \<open>The calls of \<^verbatim>\<open>Indent\<close> a sequence can make, those of \<^verbatim>\<open>Block\<close> included.\<close>

fun indents :: "op \<Rightarrow> nat"
  and indents_list :: "op list \<Rightarrow> nat" where
  "indents OpIndent = 1"
| "indents (OpBlock body) = Suc (indents_list body)"
| "indents (OpWithSpaces n) = 0"
| "indents OpWithTabs = 0"
| "indents OpDedent = 0"
| "indents (OpRaw content) = 0"
| "indents (OpRawf format args) = 0"
| "indents OpBreak = 0"
| "indents (OpInline content) = 0"
| "indents (OpInlinef format args) = 0"
| "indents (OpLine content) = 0"
| "indents (OpLinef format args) = 0"
| "indents_list [] = 0"
| "indents_list (x # xs) = indents x + indents_list xs"

subsection \<open>What the specification says of the core write\<close>

text \<open>
  The indentation prefix is the unit repeated by the depth. The specification's
  account of the core write, in one expression: nothing for empty content; otherwise
  the first sub-line, prefixed if it is not empty and the cursor is at the start of a
  line; then, for every further sub-line, one break followed by the sub-line, prefixed
  if it is not empty; and the cursor at the start of a line exactly if the content ends
  with a break.
\<close>

definition indent_prefix :: "Generator \<Rightarrow> string" where
  "indent_prefix g = concat (replicate (nat (sint (indentLevel g))) (indentString g))"

definition first_subline :: "Generator \<Rightarrow> string \<Rightarrow> string" where
  "first_subline g subline =
     (if subline = [] then []
      else (if atStartOfLine g then indent_prefix g else []) @ subline)"

definition later_subline :: "Generator \<Rightarrow> string \<Rightarrow> string" where
  "later_subline g subline =
     newline # (if subline = [] then [] else indent_prefix g @ subline)"

definition Inline_spec :: "Generator \<Rightarrow> string \<Rightarrow> Generator" where
  "Inline_spec g content =
     (if content = [] then g
      else
        (case Split content newline of
           [] \<Rightarrow> g
         | subline # sublines \<Rightarrow>
             g\<lparr>sb := sb g @ first_subline g subline @ concat (map (later_subline g) sublines),
               atStartOfLine := (last content = newline)\<rparr>))"

subsection \<open>When the prefix can be built\<close>

text \<open>
  The depth is not negative and the prefix, unit times depth, is no longer than one
  allocation may be: then \<^verbatim>\<open>strings.Repeat\<close> returns the prefix.
\<close>

definition prefix_fits :: "Generator \<Rightarrow> bool" where
  "prefix_fits g =
     (0 \<le> sint (indentLevel g) \<and>
      length (indentString g) * nat (sint (indentLevel g)) \<le> maxAlloc)"

subsection \<open>The cursor and the buffer\<close>

text \<open>
  The relation between the flag and the buffer that every write keeps: the flag is set
  exactly when nothing stands on the current line.
\<close>

definition cursor_inv :: "Generator \<Rightarrow> bool" where
  "cursor_inv g = (atStartOfLine g = (sb g = [] \<or> last (sb g) = newline))"

section \<open>Facts about the library functions\<close>

lemma sint_succ: "sint (x::go_int) < 2 ^ 63 - 1 \<Longrightarrow> sint (x + 1) = sint x + 1"
  using sint_ge[of x] by (simp add: sint_word_add signed_take_bit_int_eq_self)

lemma sint_pred: "0 < sint (x::go_int) \<Longrightarrow> sint (x - 1) = sint x - 1"
  using sint_lt[of x] by (simp add: sint_word_diff signed_take_bit_int_eq_self)

lemma HasSuffix_single: "HasSuffix s [c] = (s \<noteq> [] \<and> last s = c)"
proof (cases s rule: rev_cases)
  case Nil
  then show ?thesis by (simp add: HasSuffix_def)
next
  case (snoc ys y)
  then show ?thesis by (auto simp: HasSuffix_def)
qed

text \<open>
  The pieces of a split are never none, hold no separator, and give the string back
  when each is put behind a separator: \<open>Split\<close> cuts at every separator and nowhere else.
\<close>

lemma Split_not_Nil: "Split s sep \<noteq> []"
  by (induction s) (auto split: list.splits)

lemma Split_pieces: "piece \<in> set (Split s sep) \<Longrightarrow> sep \<notin> set piece"
proof (induction s arbitrary: piece)
  case Nil
  then show ?case by simp
next
  case (Cons c cs)
  then show ?case
    by (cases "Split cs sep") (auto split: if_splits)
qed

lemma Split_join: "concat (map ((#) sep) (Split s sep)) = sep # s"
proof (induction s)
  case Nil
  show ?case by simp
next
  case (Cons c cs)
  then show ?case
    by (cases "Split cs sep") (auto split: if_splits)
qed

text \<open>
  The same as the loop of the library reads it: the piece up to the first separator,
  then the split of what follows that separator.
\<close>

lemma Split_cut:
  "Split s sep =
     takeWhile (\<lambda>c. c \<noteq> sep) s #
       (case dropWhile (\<lambda>c. c \<noteq> sep) s of [] \<Rightarrow> [] | c # rest \<Rightarrow> Split rest sep)"
  by (induction s) (auto split: list.splits simp: Split_not_Nil)

lemma Split_length: "length (Split s sep) = Suc (count_list s sep)"
  by (induction s) (auto split: list.splits simp: Split_not_Nil)

lemma Split_no_sep: "sep \<notin> set s \<Longrightarrow> Split s sep = [s]"
  by (induction s) auto

lemma Split_eq_empty_piece: "(Split s sep = [[]]) = (s = [])"
  by (cases s) (auto split: list.splits simp: Split_not_Nil)

lemma Split_last_empty: "(last (Split s sep) = []) = (s = [] \<or> last s = sep)"
proof (induction s)
  case Nil
  show ?case by simp
next
  case (Cons c cs)
  show ?case
  proof (cases "Split cs sep")
    case Nil
    then show ?thesis by (simp add: Split_not_Nil)
  next
    case (Cons piece pieces)
    then show ?thesis
      using Cons.IH Split_eq_empty_piece[of cs sep]
      by (cases pieces) (auto split: if_splits)
  qed
qed

lemma concat_replicate_single: "concat (replicate n [c]) = replicate n c"
  by (induction n) auto

lemma concat_replicate_Nil: "concat (replicate n []) = []"
  by (induction n) auto

text \<open>For running the model on small numbers: one copy at a time.\<close>

lemma replicate_step: "0 < n \<Longrightarrow> replicate n c = c # replicate (n - 1) c"
  by (cases n) simp_all

text \<open>The four ways \<^verbatim>\<open>strings.Repeat\<close> ends.\<close>

lemma Repeat_fits:
  assumes "0 \<le> sint count" "length s * nat (sint count) \<le> maxAlloc"
  shows "Repeat s count = Inr (concat (replicate (nat (sint count)) s))"
proof -
  have "length s * nat (sint count) < 2 ^ 63"
    using assms(2) by (simp add: maxAlloc_def)
  then show ?thesis
    using assms by (auto simp: Repeat_def concat_replicate_Nil)
qed

lemma Repeat_negative:
  "sint count < 0 \<Longrightarrow> Repeat s count = Inl ''strings: negative Repeat count''"
  by (auto simp: Repeat_def)

lemma Repeat_overflow:
  "1 < sint count \<Longrightarrow> 2 ^ 63 \<le> length s * nat (sint count) \<Longrightarrow>
   Repeat s count = Inl ''strings: Repeat output length overflow''"
  by (auto simp: Repeat_def)

lemma Repeat_too_large:
  "1 < sint count \<Longrightarrow> s \<noteq> [] \<Longrightarrow> length s * nat (sint count) < 2 ^ 63 \<Longrightarrow>
   maxAlloc < length s * nat (sint count) \<Longrightarrow>
   Repeat s count = Inl ''runtime error: makeslice: len out of range''"
  by (auto simp: Repeat_def)

lemma prefix_fits_upd [simp]:
  "prefix_fits (g\<lparr>sb := b\<rparr>) = prefix_fits g"
  "prefix_fits (g\<lparr>atStartOfLine := a\<rparr>) = prefix_fits g"
  by (simp_all add: prefix_fits_def)

lemma Repeat_prefix:
  "prefix_fits g \<Longrightarrow>
   Repeat (indentString g) (indentLevel g) =
     Inr (concat (replicate (nat (sint (indentLevel g))) (indentString g)))"
  by (simp add: prefix_fits_def Repeat_fits)

section \<open>Running a sequence\<close>

lemma run_ops_append:
  "run_ops (xs @ ys) g =
     (case run_ops xs g of
        (Panicked msg, g1) \<Rightarrow> (Panicked msg, g1)
      | (Returned, g1) \<Rightarrow> run_ops ys g1)"
  by (induction xs arbitrary: g) (auto split: prod.splits outcome.splits)

lemma run_ops_Indents:
  "run_ops (replicate n OpIndent) g = (Returned, g\<lparr>indentLevel := indentLevel g + of_nat n\<rparr>)"
  by (induction n arbitrary: g) (simp_all add: Indent_def add.assoc add.commute)

lemma WithSpaces_fits:
  assumes "0 \<le> sint n" "nat (sint n) \<le> maxAlloc"
  shows "WithSpaces g n = (Returned, g\<lparr>indentString := replicate (nat (sint n)) CHR '' ''\<rparr>)"
  using assms by (simp add: WithSpaces_def Repeat_fits concat_replicate_single)

text \<open>
  A Generator that public calls build and whose prefix cannot be built: a unit of
  \<open>2 ^ 30\<close> spaces at depth \<open>2 ^ 33\<close>, a prefix of \<open>2 ^ 63\<close> bytes.
\<close>

lemma run_ops_long_prefix:
  "run_ops (OpWithSpaces (2 ^ 30) # replicate (2 ^ 33) OpIndent) New =
     (Returned, \<lparr>sb = [], indentLevel = 2 ^ 33, indentString = replicate (2 ^ 30) CHR '' '',
                  atStartOfLine = True\<rparr>)"
proof -
  have "WithSpaces New (2 ^ 30) =
          (Returned, New\<lparr>indentString := replicate (nat (sint (2 ^ 30 :: go_int))) CHR '' ''\<rparr>)"
    by (rule WithSpaces_fits) (simp_all add: maxAlloc_def)
  then show ?thesis
    by (simp add: run_ops_Indents New_def)
qed

lemma Inline_long_prefix:
  "Inline \<lparr>sb = [], indentLevel = 2 ^ 33, indentString = replicate (2 ^ 30) CHR '' '',
            atStartOfLine = True\<rparr> ''x'' =
     (Panicked ''strings: Repeat output length overflow'',
      \<lparr>sb = [], indentLevel = 2 ^ 33, indentString = replicate (2 ^ 30) CHR '' '',
         atStartOfLine = True\<rparr>)"
proof -
  have "Repeat (replicate (2 ^ 30) CHR '' '') (2 ^ 33 :: go_int) =
          Inl ''strings: Repeat output length overflow''"
    by (rule Repeat_overflow) simp_all
  then show ?thesis
    by (simp add: Inline_def Inline_step_def)
qed

lemma Line_long_prefix:
  "Line \<lparr>sb = [], indentLevel = 2 ^ 33, indentString = replicate (2 ^ 30) CHR '' '',
          atStartOfLine = True\<rparr> ''x'' =
     (Panicked ''strings: Repeat output length overflow'',
      \<lparr>sb = [], indentLevel = 2 ^ 33, indentString = replicate (2 ^ 30) CHR '' '',
         atStartOfLine = True\<rparr>)"
  by (simp only: Line_def Inline_long_prefix prod.case outcome.case)

section \<open>Configuration, depth and raw writes\<close>

text \<open>
  C10: the claim is that \<^verbatim>\<open>WithSpaces\<close> returns for every \<open>n \<ge> 0\<close>. For the largest
  \<^verbatim>\<open>int\<close> it does not: \<^verbatim>\<open>strings.Repeat\<close> asks for a string of that length and the
  runtime panics, before the assignment.
\<close>

theorem WithSpaces_MaxInt_counterexample:
  "WithSpaces New 0x7FFFFFFFFFFFFFFF =
     (Panicked ''runtime error: makeslice: len out of range'', New)"
  by (simp add: WithSpaces_def Repeat_def maxAlloc_def)

text \<open>
  C10, as the code has it: \<^verbatim>\<open>WithSpaces\<close> sets the unit to \<open>n\<close> spaces and returns for every
  \<open>n\<close> from 0 to \<^verbatim>\<open>maxAlloc\<close>; for every negative \<open>n\<close>, and for every \<open>n\<close> above
  \<^verbatim>\<open>maxAlloc\<close>, it panics in \<^verbatim>\<open>strings.Repeat\<close>, before the assignment, so the Generator
  is left as it was: the value is neither rejected with an error nor clamped.
\<close>

theorem WithSpaces_returns_or_panics:
  "WithSpaces g n =
     (if sint n < 0 then (Panicked ''strings: negative Repeat count'', g)
      else if maxAlloc < nat (sint n) then
        (Panicked ''runtime error: makeslice: len out of range'', g)
      else (Returned, g\<lparr>indentString := replicate (nat (sint n)) CHR '' ''\<rparr>))"
proof -
  consider "sint n < 0" | "0 \<le> sint n" "nat (sint n) \<le> maxAlloc" | "maxAlloc < nat (sint n)"
    by linarith
  then show ?thesis
  proof cases
    case 1
    then show ?thesis by (simp add: WithSpaces_def Repeat_negative)
  next
    case 2
    then show ?thesis by (simp add: WithSpaces_fits)
  next
    case 3
    then have big: "1 < sint n" "\<not> sint n < 0" by (simp_all add: maxAlloc_def)
    have "nat (sint n) < 2 ^ 63" using sint_lt[of n] by simp
    with 3 big have "Repeat '' '' n = Inl ''runtime error: makeslice: len out of range''"
      by (intro Repeat_too_large) simp_all
    with 3 big show ?thesis by (simp add: WithSpaces_def)
  qed
qed

text \<open>
  C5: \<^verbatim>\<open>Raw\<close> appends the content to the buffer as it is, whatever the depth, the unit
  and the cursor, and leaves depth and unit alone; for content that is not empty the
  cursor is at the start of a line afterwards exactly if the last character of the
  content is a break; for empty content nothing changes.
\<close>

theorem Raw_verbatim:
  "Raw g content =
     (if content = [] then g
      else g\<lparr>sb := sb g @ content, atStartOfLine := (last content = newline)\<rparr>)"
  by (simp add: Raw_def HasSuffix_single Let_def)

section \<open>The core write\<close>

lemma indent_prefix_upd [simp]:
  "indent_prefix (g\<lparr>sb := b\<rparr>) = indent_prefix g"
  "indent_prefix (g\<lparr>atStartOfLine := a\<rparr>) = indent_prefix g"
  by (simp_all add: indent_prefix_def)

lemma later_subline_upd [simp]:
  "later_subline (g\<lparr>sb := b\<rparr>) = later_subline g"
  "later_subline (g\<lparr>atStartOfLine := a\<rparr>) = later_subline g"
  by (simp_all add: later_subline_def fun_eq_iff)

text \<open>
  When the prefix can be built \<^verbatim>\<open>strings.Repeat\<close> returns, and one pass of the loop has a
  closed form: the first sub-line depends on the cursor it finds, every later one
  follows its own break.
\<close>

lemma Inline_step_first:
  assumes "prefix_fits g"
  shows "Inline_step g 0 subline =
           (Returned, g\<lparr>sb := sb g @ first_subline g subline,
                        atStartOfLine := (subline = [] \<and> atStartOfLine g)\<rparr>)"
  using assms by (simp add: Inline_step_def Repeat_prefix first_subline_def indent_prefix_def)

lemma Inline_step_later:
  assumes "prefix_fits g"
  shows "Inline_step g (Suc idx) subline =
           (Returned, g\<lparr>sb := sb g @ later_subline g subline, atStartOfLine := (subline = [])\<rparr>)"
  using assms by (simp add: Inline_step_def Repeat_prefix later_subline_def indent_prefix_def)

lemma Inline_loop_later:
  assumes "prefix_fits g"
  shows "Inline_loop g (Suc idx) sublines =
           (Returned, g\<lparr>sb := sb g @ concat (map (later_subline g) sublines),
                        atStartOfLine := (if sublines = [] then atStartOfLine g
                                          else last sublines = [])\<rparr>)"
  using assms
proof (induction sublines arbitrary: g idx)
  case Nil
  then show ?case by simp
next
  case (Cons subline sublines)
  let ?g1 = "g\<lparr>sb := sb g @ later_subline g subline, atStartOfLine := (subline = [])\<rparr>"
  have "prefix_fits ?g1" using Cons.prems by simp
  from Cons.IH[OF this, of "Suc idx"] Cons.prems show ?case
    by (simp add: Inline_step_later)
qed

lemma Inline_eq_spec:
  assumes "prefix_fits g"
  shows "Inline g content = (Returned, Inline_spec g content)"
proof (cases "content = []")
  case True
  then show ?thesis by (simp add: Inline_def Inline_spec_def)
next
  case False
  obtain subline sublines where sp: "Split content newline = subline # sublines"
    using Split_not_Nil[of content newline] by (cases "Split content newline") auto
  let ?g1 = "g\<lparr>sb := sb g @ first_subline g subline,
                atStartOfLine := (subline = [] \<and> atStartOfLine g)\<rparr>"
  have d1: "prefix_fits ?g1" using assms by simp
  have loop: "Inline_loop g 0 (subline # sublines) =
      (Returned, ?g1\<lparr>sb := sb ?g1 @ concat (map (later_subline ?g1) sublines),
                        atStartOfLine := (if sublines = [] then atStartOfLine ?g1
                                          else last sublines = [])\<rparr>)"
    using Inline_step_first[OF assms, of subline] Inline_loop_later[OF d1, of 0 sublines]
    by simp
  have lastpiece: "(last (subline # sublines) = []) = (last content = newline)"
    using Split_last_empty[of content newline] False sp by simp
  have single: "sublines = [] \<Longrightarrow> subline \<noteq> []"
    using Split_eq_empty_piece[of content newline] False sp by auto
  show ?thesis
    using False sp loop lastpiece single
    by (auto simp: Inline_def Inline_spec_def HasSuffix_single)
qed

text \<open>
  The breaks written are those of the content, one for one, when the unit holds none
  (the units that \<^verbatim>\<open>New\<close>, \<^verbatim>\<open>WithSpaces\<close> and \<^verbatim>\<open>WithTabs\<close> set are spaces or a tab).
\<close>

lemma count_concat_replicate:
  "count_list (concat (replicate n s)) c = n * count_list s c"
  by (induction n) auto

lemma count_later_sublines:
  assumes "newline \<notin> set (indent_prefix g)" "\<forall>l \<in> set sublines. newline \<notin> set l"
  shows "count_list (concat (map (later_subline g) sublines)) newline = length sublines"
  using assms by (induction sublines) (auto simp: later_subline_def)

lemma Inline_breaks:
  assumes "prefix_fits g" "newline \<notin> set (indentString g)"
  shows "\<exists>written. sb (snd (Inline g content)) = sb g @ written \<and>
           count_list written newline = count_list content newline"
proof (cases "content = []")
  case True
  then show ?thesis by (simp add: Inline_def)
next
  case False
  obtain subline sublines where sp: "Split content newline = subline # sublines"
    using Split_not_Nil[of content newline] by (cases "Split content newline") auto
  have np: "newline \<notin> set (indent_prefix g)"
    using assms(2) by (auto simp: indent_prefix_def)
  have pieces: "newline \<notin> set subline" "\<forall>l \<in> set sublines. newline \<notin> set l"
    using Split_pieces[of _ content newline] sp by auto
  have len: "length sublines = count_list content newline"
    using Split_length[of content newline] sp by simp
  let ?w = "first_subline g subline @ concat (map (later_subline g) sublines)"
  have "count_list (first_subline g subline) newline = 0"
    using np pieces(1) by (simp add: first_subline_def)
  then have "count_list ?w newline = count_list content newline"
    using count_later_sublines[OF np pieces(2)] len by simp
  moreover have "sb (snd (Inline g content)) = sb g @ ?w"
    using Inline_eq_spec[OF assms(1), of content] False sp by (simp add: Inline_spec_def)
  ultimately show ?thesis by blast
qed

text \<open>
  C2: the claim is that \<^verbatim>\<open>Inline\<close> writes the prefix and the content in every state. With
  a unit of \<open>2 ^ 30\<close> spaces and \<open>2 ^ 33\<close> calls of \<^verbatim>\<open>Indent\<close> the prefix would be
  \<open>2 ^ 63\<close> bytes long: \<^verbatim>\<open>strings.Repeat\<close> panics and \<^verbatim>\<open>Inline\<close> writes nothing.
\<close>

theorem Inline_long_prefix_counterexample:
  "run_ops (OpWithSpaces (2 ^ 30) # replicate (2 ^ 33) OpIndent @ [OpInline ''x'']) New =
     (Panicked ''strings: Repeat output length overflow'',
      \<lparr>sb = [], indentLevel = 2 ^ 33, indentString = replicate (2 ^ 30) CHR '' '',
         atStartOfLine = True\<rparr>)"
proof -
  have "run_ops ((OpWithSpaces (2 ^ 30) # replicate (2 ^ 33) OpIndent) @ [OpInline ''x'']) New =
     (Panicked ''strings: Repeat output length overflow'',
      \<lparr>sb = [], indentLevel = 2 ^ 33, indentString = replicate (2 ^ 30) CHR '' '',
         atStartOfLine = True\<rparr>)"
    by (subst run_ops_append, subst run_ops_long_prefix)
      (simp only: run_ops.simps run_op.simps Inline_long_prefix prod.case outcome.case)
  then show ?thesis by simp
qed

text \<open>
  C2, as the code has it: on every Generator whose depth is not negative (the depth of
  the specification's Builder is a non-negative integer) and whose prefix, unit times
  depth, is at most \<^verbatim>\<open>maxAlloc\<close> bytes long, \<^verbatim>\<open>Inline\<close> returns, and leaves exactly what
  the specification describes: nothing changes for empty content; otherwise the content
  is split at its breaks, the first sub-line is written with the prefix (unit repeated
  by depth) if it is not empty and the cursor was at the start of a line, and without
  it if the cursor was not; every later sub-line is written after one break, with the
  prefix if it is not empty; an empty sub-line writes nothing; and the cursor ends at
  the start of a line exactly if the content ends with a break. No other break is
  written: with a unit that holds no break, what is appended to the buffer has as many
  breaks as the content.
\<close>

theorem Inline_behaves_as_specified:
  assumes "0 \<le> sint (indentLevel g)"
    and "length (indentString g) * nat (sint (indentLevel g)) \<le> maxAlloc"
  shows "Inline g content = (Returned, Inline_spec g content) \<and>
         (newline \<notin> set (indentString g) \<longrightarrow>
            (\<exists>written. sb (Inline_spec g content) = sb g @ written \<and>
               count_list written newline = count_list content newline))"
proof -
  have fits: "prefix_fits g" using assms by (simp add: prefix_fits_def)
  have eq: "Inline g content = (Returned, Inline_spec g content)"
    using fits by (rule Inline_eq_spec)
  have "\<exists>written. sb (Inline_spec g content) = sb g @ written \<and>
          count_list written newline = count_list content newline"
    if "newline \<notin> set (indentString g)"
    using Inline_breaks[OF fits that, of content] eq by simp
  with eq show ?thesis by blast
qed

theorem Inline_behaves_as_specified_witness:
  "0 \<le> sint (indentLevel (Indent New)) \<and>
   length (indentString (Indent New)) * nat (sint (indentLevel (Indent New))) \<le> maxAlloc \<and>
   newline \<notin> set (indentString (Indent New)) \<and>
   Inline (Indent New) ''a\<newline>\<newline>bc\<newline>'' =
     (Returned, \<lparr>sb = ''  a\<newline>\<newline>  bc\<newline>'', indentLevel = 1, indentString = ''  '',
                  atStartOfLine = True\<rparr>) \<and>
   (\<exists>written. ''  a\<newline>\<newline>  bc\<newline>'' = sb (Indent New) @ written \<and>
      count_list written newline = count_list ''a\<newline>\<newline>bc\<newline>'' newline)"
proof -
  have d: "0 \<le> sint (indentLevel (Indent New))" by (simp add: Indent_def New_def)
  have f: "length (indentString (Indent New)) * nat (sint (indentLevel (Indent New))) \<le> maxAlloc"
    by (simp add: Indent_def New_def maxAlloc_def)
  have u: "newline \<notin> set (indentString (Indent New))" by (simp add: Indent_def New_def)
  have s: "Inline_spec (Indent New) ''a\<newline>\<newline>bc\<newline>'' =
      \<lparr>sb = ''  a\<newline>\<newline>  bc\<newline>'', indentLevel = 1, indentString = ''  '',
                  atStartOfLine = True\<rparr>"
    by (simp add: Inline_spec_def first_subline_def later_subline_def indent_prefix_def
        Indent_def New_def)
  from Inline_behaves_as_specified[OF d f, of "''a\<newline>\<newline>bc\<newline>''"] d f u s
  show ?thesis by simp
qed

text \<open>
  C7: content without a break, written by \<^verbatim>\<open>Inline\<close> into an empty buffer at depth 0
  with the cursor at the start of a line, is what \<^verbatim>\<open>String\<close> returns afterwards.
\<close>

theorem Inline_round_trip:
  assumes "newline \<notin> set content" "indentLevel g = 0" "atStartOfLine g" "sb g = []"
  shows "\<exists>g1. Inline g content = (Returned, g1) \<and> String g1 = content"
proof -
  have "prefix_fits g" using assms(2) by (simp add: prefix_fits_def)
  then have "Inline g content = (Returned, Inline_spec g content)" by (rule Inline_eq_spec)
  moreover have "String (Inline_spec g content) = content"
    using assms
    by (simp add: String_def Inline_spec_def Split_no_sep first_subline_def indent_prefix_def)
  ultimately show ?thesis by blast
qed

theorem Inline_round_trip_witness:
  "newline \<notin> set ''let x = 1;'' \<and> indentLevel New = 0 \<and> atStartOfLine New \<and> sb New = [] \<and>
   (\<exists>g1. Inline New ''let x = 1;'' = (Returned, g1) \<and> String g1 = ''let x = 1;'')"
proof -
  have h: "newline \<notin> set ''let x = 1;''" "indentLevel New = 0" "atStartOfLine New" "sb New = []"
    by (simp_all add: New_def)
  from Inline_round_trip[OF h] h show ?thesis by blast
qed

section \<open>The line-terminated write\<close>

text \<open>
  C6: the claim is that \<^verbatim>\<open>Line\<close> ends in every state with one break appended and the
  cursor at the start of a line. With a unit of \<open>2 ^ 30\<close> spaces and \<open>2 ^ 33\<close> calls of
  \<^verbatim>\<open>Indent\<close> the call of \<^verbatim>\<open>Inline\<close> in \<^verbatim>\<open>Line\<close> panics, \<^verbatim>\<open>Break\<close> is not reached and
  the buffer is still empty.
\<close>

theorem Line_long_prefix_counterexample:
  "run_ops (OpWithSpaces (2 ^ 30) # replicate (2 ^ 33) OpIndent @ [OpLine ''x'']) New =
     (Panicked ''strings: Repeat output length overflow'',
      \<lparr>sb = [], indentLevel = 2 ^ 33, indentString = replicate (2 ^ 30) CHR '' '',
         atStartOfLine = True\<rparr>)"
proof -
  have "run_ops ((OpWithSpaces (2 ^ 30) # replicate (2 ^ 33) OpIndent) @ [OpLine ''x'']) New =
     (Panicked ''strings: Repeat output length overflow'',
      \<lparr>sb = [], indentLevel = 2 ^ 33, indentString = replicate (2 ^ 30) CHR '' '',
         atStartOfLine = True\<rparr>)"
    by (subst run_ops_append, subst run_ops_long_prefix)
      (simp only: run_ops.simps run_op.simps Line_long_prefix prod.case outcome.case)
  then show ?thesis by simp
qed

text \<open>
  C6, as the code has it: in every state \<^verbatim>\<open>Line\<close> is \<^verbatim>\<open>Inline\<close> followed by \<^verbatim>\<open>Break\<close>, a
  panic of \<^verbatim>\<open>Inline\<close> passed on: \<^verbatim>\<open>Line\<close> ends the way \<^verbatim>\<open>Inline\<close> ends, and it leaves what
  \<^verbatim>\<open>Break\<close> makes of the Generator of \<^verbatim>\<open>Inline\<close> when \<^verbatim>\<open>Inline\<close> returns, and the Generator
  of \<^verbatim>\<open>Inline\<close> itself when \<^verbatim>\<open>Inline\<close> panics. On a Generator whose depth is not negative
  and whose prefix is at most \<^verbatim>\<open>maxAlloc\<close> bytes long \<^verbatim>\<open>Inline\<close> returns, and \<^verbatim>\<open>Line\<close>
  leaves the buffer of \<^verbatim>\<open>Inline\<close> with one break behind it and the cursor at the start
  of a line, whatever the content.
\<close>

theorem Line_is_Inline_then_Break:
  "fst (Line g content) = fst (Inline g content) \<and>
   snd (Line g content) =
     (if fst (Inline g content) = Returned then Break (snd (Inline g content))
      else snd (Inline g content)) \<and>
   (0 \<le> sint (indentLevel g) \<and>
    length (indentString g) * nat (sint (indentLevel g)) \<le> maxAlloc \<longrightarrow>
      (\<exists>g1. Inline g content = (Returned, g1) \<and> Line g content = (Returned, Break g1) \<and>
         sb (Break g1) = sb g1 @ [newline] \<and> atStartOfLine (Break g1)))"
proof -
  obtain r g1 where i: "Inline g content = (r, g1)" by fastforce
  have comp: "fst (Line g content) = fst (Inline g content) \<and>
      snd (Line g content) =
        (if fst (Inline g content) = Returned then Break (snd (Inline g content))
         else snd (Inline g content))"
    using i by (cases r) (simp_all add: Line_def)
  have "\<exists>g1. Inline g content = (Returned, g1) \<and> Line g content = (Returned, Break g1) \<and>
         sb (Break g1) = sb g1 @ [newline] \<and> atStartOfLine (Break g1)"
    if "0 \<le> sint (indentLevel g)"
      and "length (indentString g) * nat (sint (indentLevel g)) \<le> maxAlloc"
  proof -
    have "prefix_fits g" using that by (simp add: prefix_fits_def)
    then show ?thesis
      using Inline_eq_spec[of g content] by (simp add: Line_def Break_def)
  qed
  with comp show ?thesis by blast
qed

theorem Line_is_Inline_then_Break_witness:
  "0 \<le> sint (indentLevel New) \<and>
   length (indentString New) * nat (sint (indentLevel New)) \<le> maxAlloc \<and>
   Inline New ''x = 1'' = (Returned, New\<lparr>sb := ''x = 1'', atStartOfLine := False\<rparr>) \<and>
   Line New ''x = 1'' = (Returned, New\<lparr>sb := ''x = 1\<newline>''\<rparr>)"
proof -
  have d: "0 \<le> sint (indentLevel New)"
    "length (indentString New) * nat (sint (indentLevel New)) \<le> maxAlloc"
    by (simp_all add: New_def)
  from Line_is_Inline_then_Break[of New "''x = 1''"] d
  obtain g1 where "Inline New ''x = 1'' = (Returned, g1)"
    and "Line New ''x = 1'' = (Returned, Break g1)" by blast
  moreover have "Inline New ''x = 1'' = (Returned, New\<lparr>sb := ''x = 1'', atStartOfLine := False\<rparr>)"
    by (simp add: Inline_def Inline_step_def Repeat_def HasSuffix_def New_def)
  ultimately show ?thesis using d by (simp add: Break_def New_def)
qed

section \<open>Scoped indentation\<close>

lemma Block_Returned:
  "fn (Indent g) = (Returned, g1) \<Longrightarrow> Block g fn = (Returned, Dedent g1)"
  by (simp add: Block_def)

lemma Block_Panicked:
  "fn (Indent g) = (Panicked msg, g1) \<Longrightarrow> Block g fn = (Panicked msg, g1)"
  by (simp add: Block_def)

text \<open>
  C1: the claim is that \<^verbatim>\<open>Block\<close> calls \<^verbatim>\<open>Dedent\<close> even when the callback panics. In the
  code the call of \<^verbatim>\<open>Dedent\<close> is an ordinary statement after \<^verbatim>\<open>fn()\<close>. A callback that
  panics at once, in a new Generator: the panic reaches the caller and the depth is
  left at 1, not back at 0, so that a caller who recovers and writes a line finds it
  indented by one unit.
\<close>

theorem Block_panic_skips_Dedent:
  "Block New (\<lambda>g. (Panicked ''boom'', g)) = (Panicked ''boom'', New\<lparr>indentLevel := 1\<rparr>) \<and>
   Line (snd (Block New (\<lambda>g. (Panicked ''boom'', g)))) ''x'' =
     (Returned, New\<lparr>sb := ''  x\<newline>'', indentLevel := 1\<rparr>)"
  by (simp add: Block_def Indent_def New_def Line_def Inline_def Inline_step_def Repeat_def
      HasSuffix_def Break_def)

section \<open>What a write leaves alone\<close>

text \<open>
  The writes change neither depth nor unit, and the buffer only grows at its end, also
  when \<^verbatim>\<open>Inline\<close> panics half way.
\<close>

lemma Inline_step_fields:
  "indentLevel (snd (Inline_step g idx subline)) = indentLevel g"
  "indentString (snd (Inline_step g idx subline)) = indentString g"
  "prefix (sb g) (sb (snd (Inline_step g idx subline)))"
  by (simp_all add: Inline_step_def Let_def split: sum.splits)

lemma Inline_loop_fields:
  "indentLevel (snd (Inline_loop g idx sublines)) = indentLevel g \<and>
   indentString (snd (Inline_loop g idx sublines)) = indentString g \<and>
   prefix (sb g) (sb (snd (Inline_loop g idx sublines)))"
proof (induction sublines arbitrary: g idx)
  case Nil
  show ?case by simp
next
  case (Cons subline sublines)
  obtain r g1 where st: "Inline_step g idx subline = (r, g1)" by fastforce
  have f: "indentLevel g1 = indentLevel g" "indentString g1 = indentString g"
    "prefix (sb g) (sb g1)"
    using Inline_step_fields[of g idx subline] st by simp_all
  show ?case
  proof (cases r)
    case Returned
    with st f Cons.IH[of g1 "Suc idx"] show ?thesis
      by (auto intro: prefix_order.trans)
  next
    case (Panicked msg)
    with st f show ?thesis by simp
  qed
qed

lemma Inline_fields:
  "indentLevel (snd (Inline g content)) = indentLevel g"
  "indentString (snd (Inline g content)) = indentString g"
  "prefix (sb g) (sb (snd (Inline g content)))"
  using Inline_loop_fields[of g 0 "Split content newline"]
  by (auto simp: Inline_def split: prod.splits outcome.splits)

lemma Line_fields:
  "indentLevel (snd (Line g content)) = indentLevel g"
  "indentString (snd (Line g content)) = indentString g"
  "prefix (sb g) (sb (snd (Line g content)))"
  using Inline_fields[of g content]
  by (auto simp: Line_def Break_def split: prod.splits outcome.splits intro: prefix_order.trans)

lemma Raw_fields:
  "indentLevel (Raw g content) = indentLevel g"
  "indentString (Raw g content) = indentString g"
  "prefix (sb g) (sb (Raw g content))"
  by (simp_all add: Raw_def Let_def)


section \<open>Formatted variants\<close>

text \<open>
  C8: each formatted variant leaves the Generator exactly as the base method does on
  the string that \<^verbatim>\<open>fmt.Sprintf\<close> returns for the template and the arguments.
\<close>

theorem formatted_variants_delegate:
  "Linef g format args = Line g (Sprintf format args) \<and>
   Inlinef g format args = Inline g (Sprintf format args) \<and>
   Rawf g format args = Raw g (Sprintf format args)"
  by (simp add: Linef_def Inlinef_def Rawf_def)




section \<open>The cursor flag follows the buffer\<close>

lemma Inline_step_inv:
  assumes "cursor_inv g" "newline \<notin> set subline"
  shows "cursor_inv (snd (Inline_step g idx subline))"
proof (cases "subline = []")
  case True
  with assms show ?thesis by (simp add: Inline_step_def cursor_inv_def)
next
  case False
  then have "last subline \<noteq> newline" using assms(2) last_in_set by metis
  with False assms(1) show ?thesis
    by (simp add: Inline_step_def cursor_inv_def Let_def split: sum.splits)
qed

lemma Inline_loop_inv:
  assumes "cursor_inv g" "\<forall>subline \<in> set sublines. newline \<notin> set subline"
  shows "cursor_inv (snd (Inline_loop g idx sublines))"
  using assms
proof (induction sublines arbitrary: g idx)
  case Nil
  then show ?case by simp
next
  case (Cons subline sublines)
  obtain r g1 where st: "Inline_step g idx subline = (r, g1)" by fastforce
  have "cursor_inv g1" using Inline_step_inv[of g subline idx] Cons.prems st by simp
  then have "cursor_inv (snd (Inline_loop g1 (Suc idx) sublines))"
    using Cons.IH Cons.prems by simp
  with st \<open>cursor_inv g1\<close> show ?case by (cases r) simp_all
qed

lemma Inline_step_break:
  assumes "Inline_step g (Suc idx) [] = (r, g1)"
  shows "atStartOfLine g1"
  using assms by (auto simp: Inline_step_def)

text \<open>
  When the last sub-line is empty and is not the only one, the loop ends on its break:
  the assignment that follows the loop in \<^verbatim>\<open>Inline\<close> finds the flag already set.
\<close>

lemma Inline_loop_flag:
  assumes "Inline_loop g idx sublines = (Returned, g1)" "sublines \<noteq> []" "last sublines = []"
    and "0 < idx \<or> 2 \<le> length sublines"
  shows "atStartOfLine g1"
  using assms
proof (induction sublines arbitrary: g idx)
  case Nil
  then show ?case by simp
next
  case (Cons subline sublines)
  obtain r g2 where st: "Inline_step g idx subline = (r, g2)" by fastforce
  with Cons.prems(1) have r: "r = Returned" by (cases r) auto
  show ?case
  proof (cases "sublines = []")
    case True
    with Cons.prems st r obtain k where "idx = Suc k" "subline = []" "g2 = g1"
      by (cases idx) auto
    with st show ?thesis using Inline_step_break by blast
  next
    case False
    with Cons.prems st r show ?thesis
      using Cons.IH[of g2 "Suc idx"] by simp
  qed
qed

lemma Inline_inv:
  assumes "cursor_inv g"
  shows "cursor_inv (snd (Inline g content))"
proof (cases "content = []")
  case True
  with assms show ?thesis by (simp add: Inline_def)
next
  case False
  let ?ls = "Split content newline"
  obtain r g1 where lp: "Inline_loop g 0 ?ls = (r, g1)" by fastforce
  have inv1: "cursor_inv g1"
    using Inline_loop_inv[OF assms, of ?ls 0] Split_pieces[of _ content newline] lp by auto
  show ?thesis
  proof (cases r)
    case (Panicked msg)
    with lp inv1 False show ?thesis by (simp add: Inline_def)
  next
    case Returned
    show ?thesis
    proof (cases "HasSuffix content [newline]")
      case True
      then have "last ?ls = []" using Split_last_empty[of content newline] 
        by (simp add: HasSuffix_single)
      moreover have "2 \<le> length ?ls"
        using Split_eq_empty_piece[of content newline] False Split_not_Nil[of content newline] calculation
        by (cases ?ls; cases "tl ?ls") auto
      ultimately have "atStartOfLine g1"
        using Inline_loop_flag[of g 0 ?ls g1] lp Returned Split_not_Nil[of content newline] by simp
      then have "g1\<lparr>atStartOfLine := True\<rparr> = g1" by simp
      with lp Returned inv1 False True show ?thesis by (simp add: Inline_def)
    next
      case notsuf: False
      with lp Returned inv1 False show ?thesis by (simp add: Inline_def)
    qed
  qed
qed


lemma Raw_inv: "cursor_inv g \<Longrightarrow> cursor_inv (Raw g content)"
  by (simp add: Raw_def cursor_inv_def HasSuffix_single Let_def)

lemma Break_inv: "cursor_inv (Break g)"
  by (simp add: Break_def cursor_inv_def)

lemma Line_inv: "cursor_inv g \<Longrightarrow> cursor_inv (snd (Line g content))"
  using Inline_inv[of g content]
  by (auto simp: Line_def Break_inv split: prod.splits outcome.splits)

lemma Indent_inv: "cursor_inv (Indent g) = cursor_inv g"
  by (simp add: Indent_def cursor_inv_def)

lemma Dedent_inv: "cursor_inv (Dedent g) = cursor_inv g"
  by (simp add: Dedent_def cursor_inv_def)

lemma WithTabs_inv: "cursor_inv (WithTabs g) = cursor_inv g"
  by (simp add: WithTabs_def cursor_inv_def)

lemma WithSpaces_inv: "cursor_inv (snd (WithSpaces g n)) = cursor_inv g"
  by (simp add: WithSpaces_def cursor_inv_def split: sum.splits)

text \<open>\<^verbatim>\<open>Block\<close> keeps the relation for every callback that keeps it.\<close>

lemma Block_inv:
  assumes "\<And>g1. cursor_inv g1 \<Longrightarrow> cursor_inv (snd (fn g1))" "cursor_inv g"
  shows "cursor_inv (snd (Block g fn))"
proof -
  have "cursor_inv (snd (fn (Indent g)))" using assms by (simp add: Indent_inv)
  then show ?thesis
    by (auto simp: Block_def Dedent_inv split: prod.splits outcome.splits)
qed

lemma run_inv:
  "cursor_inv g \<Longrightarrow> cursor_inv (snd (run_op x g))"
  "cursor_inv g \<Longrightarrow> cursor_inv (snd (run_ops xs g))"
proof (induction x g and xs g rule: run_op_run_ops.induct)
  case (12 body g)
  then show ?case by (simp add: Block_inv)
next
  case (14 x xs g)
  then show ?case by (auto split: prod.splits outcome.splits)
qed (simp_all add: WithSpaces_inv WithTabs_inv Indent_inv Dedent_inv Raw_inv Rawf_def
       Break_inv Inline_inv Inlinef_def Line_inv Linef_def)

lemma New_inv: "cursor_inv New"
  by (simp add: New_def cursor_inv_def)

text \<open>
  C9: after every sequence of operations on a new Generator the flag is set exactly if
  the buffer is empty or ends with a break, and every single operation, \<^verbatim>\<open>Block\<close> with
  any sequence as its callback included, keeps that relation, also when it panics.
\<close>

theorem cursor_flag_tracks_buffer:
  "cursor_inv (snd (run_ops ops New)) \<and>
   (\<forall>g x. cursor_inv g \<longrightarrow> cursor_inv (snd (run_op x g)))"
  by (simp add: run_inv New_inv)

theorem cursor_flag_tracks_buffer_witness:
  "cursor_inv New \<and> cursor_inv (snd (run_op (OpLine ''a'') New)) \<and>
   snd (run_op (OpLine ''a'') New) = New\<lparr>sb := ''a\<newline>''\<rparr>"
proof -
  have "cursor_inv New" by (simp add: New_def cursor_inv_def)
  moreover from this have "cursor_inv (snd (run_op (OpLine ''a'') New))"
    using cursor_flag_tracks_buffer[of "[]"] by blast
  moreover have "snd (run_op (OpLine ''a'') New) = New\<lparr>sb := ''a\<newline>''\<rparr>"
    by (simp add: Line_def Inline_def Inline_step_def Repeat_def HasSuffix_def Break_def New_def)
  ultimately show ?thesis by simp
qed

section \<open>The depth\<close>

lemma Indent_depth:
  "sint (indentLevel g) < 2 ^ 63 - 1 \<Longrightarrow> sint (indentLevel (Indent g)) = sint (indentLevel g) + 1"
  by (simp add: Indent_def sint_succ)

lemma Dedent_depth:
  "sint (indentLevel (Dedent g)) =
     (if 0 < sint (indentLevel g) then sint (indentLevel g) - 1 else sint (indentLevel g))"
  by (simp add: Dedent_def sint_pred)

lemma Dedent_at_floor: "indentLevel g = 0 \<Longrightarrow> Dedent g = g"
  by (simp add: Dedent_def)

lemma WithSpaces_depth: "indentLevel (snd (WithSpaces g n)) = indentLevel g"
  by (simp add: WithSpaces_def split: sum.splits)

lemma Block_depth:
  assumes "0 \<le> sint (indentLevel g)" "sint (indentLevel g) + 1 + int k < 2 ^ 63"
    and "\<And>g1. 0 \<le> sint (indentLevel g1) \<Longrightarrow> sint (indentLevel g1) + int k < 2 ^ 63 \<Longrightarrow>
           0 \<le> sint (indentLevel (snd (fn g1))) \<and>
           sint (indentLevel (snd (fn g1))) \<le> sint (indentLevel g1) + int k"
  shows "0 \<le> sint (indentLevel (snd (Block g fn))) \<and>
         sint (indentLevel (snd (Block g fn))) \<le> sint (indentLevel g) + 1 + int k"
proof -
  have i: "sint (indentLevel (Indent g)) = sint (indentLevel g) + 1"
    using assms(2) by (intro Indent_depth) linarith
  then have b: "0 \<le> sint (indentLevel (snd (fn (Indent g))))"
      "sint (indentLevel (snd (fn (Indent g)))) \<le> sint (indentLevel g) + 1 + int k"
    using assms(3)[of "Indent g"] assms(1,2) by auto
  obtain r g2 where f: "fn (Indent g) = (r, g2)" by fastforce
  show ?thesis
  proof (cases r)
    case Returned
    with f b show ?thesis by (simp add: Block_def Dedent_depth)
  next
    case (Panicked msg)
    with f b show ?thesis by (simp add: Block_def)
  qed
qed

lemma run_depth:
  "0 \<le> sint (indentLevel g) \<Longrightarrow> sint (indentLevel g) + int (indents x) < 2 ^ 63 \<Longrightarrow>
     0 \<le> sint (indentLevel (snd (run_op x g))) \<and>
     sint (indentLevel (snd (run_op x g))) \<le> sint (indentLevel g) + int (indents x)"
  "0 \<le> sint (indentLevel g) \<Longrightarrow> sint (indentLevel g) + int (indents_list xs) < 2 ^ 63 \<Longrightarrow>
     0 \<le> sint (indentLevel (snd (run_ops xs g))) \<and>
     sint (indentLevel (snd (run_ops xs g))) \<le> sint (indentLevel g) + int (indents_list xs)"
proof (induction x g and xs g rule: run_op_run_ops.induct)
  case (3 g)
  then show ?case by (simp add: Indent_depth)
next
  case (4 g)
  then show ?case by (simp add: Dedent_depth)
next
  case (12 body g)
  have "0 \<le> sint (indentLevel (snd (Block g (\<lambda>g1. run_ops body g1)))) \<and>
        sint (indentLevel (snd (Block g (\<lambda>g1. run_ops body g1))))
          \<le> sint (indentLevel g) + 1 + int (indents_list body)"
    using "12.prems" "12.IH" by (intro Block_depth) simp_all
  then show ?case by simp
next
  case (14 x xs g)
  obtain r g1 where st: "run_op x g = (r, g1)" by fastforce
  have b: "0 \<le> sint (indentLevel g1)" "sint (indentLevel g1) \<le> sint (indentLevel g) + int (indents x)"
    using "14.IH"(1) "14.prems" st by simp_all
  show ?case
  proof (cases r)
    case Returned
    have "0 \<le> sint (indentLevel (snd (run_ops xs g1))) \<and>
          sint (indentLevel (snd (run_ops xs g1))) \<le> sint (indentLevel g1) + int (indents_list xs)"
      using "14.IH"(2)[of Returned g1] st Returned b "14.prems" by simp
    with st Returned b show ?thesis by simp
  next
    case (Panicked msg)
    with st b show ?thesis by simp
  qed
qed (simp_all add: WithSpaces_depth WithTabs_def Raw_fields Rawf_def Break_def
      Inline_fields Inlinef_def Line_fields Linef_def)

text \<open>
  At a negative depth the first indented write panics, before anything is written.
\<close>

lemma Inline_negative_depth_panics:
  assumes "sint (indentLevel g) < 0" "atStartOfLine g" "content \<noteq> []" "hd content \<noteq> newline"
  shows "Inline g content = (Panicked ''strings: negative Repeat count'', g)"
proof -
  obtain c cs where c: "content = c # cs" "c \<noteq> newline"
    using assms(3,4) by (cases content) auto
  obtain piece pieces where sp: "Split content newline = (c # piece) # pieces"
    using c Split_not_Nil[of cs newline] by (cases "Split cs newline") auto
  have "Inline_step g 0 (c # piece) = (Panicked ''strings: negative Repeat count'', g)"
    using assms(1,2) by (simp add: Inline_step_def Repeat_negative)
  then show ?thesis using c sp by (simp add: Inline_def)
qed

text \<open>
  So the write that follows the wrap-around of the depth panics.
\<close>

lemma write_after_wrap_panics:
  "fst (run_ops (replicate (2 ^ 63) OpIndent @ [OpLine ''x'']) New) =
     Panicked ''strings: negative Repeat count''"
proof -
  let ?g = "New\<lparr>indentLevel := indentLevel New + of_nat (2 ^ 63)\<rparr>"
  have "sint (indentLevel ?g) < 0" by (simp add: New_def)
  moreover have "atStartOfLine ?g" by (simp add: New_def)
  ultimately have "Inline ?g ''x'' = (Panicked ''strings: negative Repeat count'', ?g)"
    by (intro Inline_negative_depth_panics) simp_all
  then show ?thesis
    by (simp add: run_ops_append run_ops_Indents Line_def)
qed

text \<open>
  C4: the claim is that no sequence of operations makes the depth negative. \<^verbatim>\<open>Indent\<close>
  increments a machine integer without a check, so the call that finds the depth at the
  largest \<^verbatim>\<open>int\<close> wraps it around: after \<open>2 ^ 63\<close> calls of \<^verbatim>\<open>Indent\<close> on a new Generator
  the depth is \<open>- (2 ^ 63)\<close>.
\<close>

theorem depth_wraps_counterexample:
  "sint (indentLevel (snd (run_ops (replicate (2 ^ 63) OpIndent) New))) < 0"
  by (simp add: run_ops_Indents New_def)

text \<open>
  C4, as the code has it: \<^verbatim>\<open>Dedent\<close> at depth 0 leaves the Generator as it is and never
  takes a depth below 0; and a sequence of operations started at a depth \<open>d \<ge> 0\<close> ends
  at a depth that is not negative, however it ends, provided it calls \<^verbatim>\<open>Indent\<close> fewer
  than \<open>2 ^ 63 - d\<close> times, the calls made by \<^verbatim>\<open>Block\<close> counted. Every state a
  sequence passes through is the end of a shorter sequence with no more calls of
  \<^verbatim>\<open>Indent\<close> (inside a callback: the sequence before the \<^verbatim>\<open>Block\<close>, an \<^verbatim>\<open>Indent\<close>, and
  the callback so far), so the depth is not negative at any point.
\<close>

theorem depth_never_negative:
  "(indentLevel g = 0 \<longrightarrow> Dedent g = g) \<and>
   (0 \<le> sint (indentLevel g) \<longrightarrow> 0 \<le> sint (indentLevel (Dedent g))) \<and>
   (0 \<le> sint (indentLevel g) \<and> sint (indentLevel g) + int (indents_list ops) < 2 ^ 63 \<longrightarrow>
      0 \<le> sint (indentLevel (snd (run_ops ops g))))"
  using run_depth(2)[of g ops] by (simp add: Dedent_at_floor Dedent_depth)

theorem depth_never_negative_witness:
  "indentLevel New = 0 \<and> Dedent New = New \<and>
   0 \<le> sint (indentLevel New) \<and> 0 \<le> sint (indentLevel (Dedent New)) \<and>
   sint (indentLevel New) + int (indents_list [OpBlock [OpLine ''a'', OpDedent], OpDedent]) < 2 ^ 63 \<and>
   0 \<le> sint (indentLevel (snd (run_ops [OpBlock [OpLine ''a'', OpDedent], OpDedent] New)))"
proof -
  have h: "indentLevel New = 0" "0 \<le> sint (indentLevel New)"
    "sint (indentLevel New) + int (indents_list [OpBlock [OpLine ''a'', OpDedent], OpDedent]) < 2 ^ 63"
    by (simp_all add: New_def)
  from depth_never_negative[of New "[OpBlock [OpLine ''a'', OpDedent], OpDedent]"] h
  show ?thesis by simp
qed

section \<open>The tests of the package, on the model\<close>

text \<open>
  The test file of the package builds a Generator by a chain of calls and compares
  \<^verbatim>\<open>String()\<close> with the text it expects. The same chains, on the model, give the same
  texts.
\<close>

lemmas eval_defs = New_def WithSpaces_def WithTabs_def Indent_def Dedent_def Raw_def Break_def
  Inline_def Inline_step_def Line_def Block_def String_def Repeat_def HasSuffix_def
  Rawf_def Inlinef_def Linef_def Sprintf_def badVerb_def extra_args_def maxAlloc_def
  replicate_step

lemma test_DefaultIndentation:
  "map_prod id String (run_ops [OpLine ''if (true) {'', OpIndent, OpLine ''console.log('hello')'',
      OpDedent, OpLine ''}''] New)
   = (Returned, ''if (true) {\<newline>  console.log('hello')\<newline>}\<newline>'')"
  by (simp add: eval_defs)

lemma test_CustomSpaces:
  "map_prod id String (run_ops [OpWithSpaces 4, OpLine ''if (true) {'', OpIndent, OpLine ''console.log('hello')'',
      OpDedent, OpLine ''}''] New)
   = (Returned, ''if (true) {\<newline>    console.log('hello')\<newline>}\<newline>'')"
  by (simp add: eval_defs)

lemma test_NestedBlocks:
  "map_prod id String (run_ops
     [OpWithSpaces 2,
      OpLine ''function example() {'',
      OpBlock
        [OpLine ''if (condition) {'',
         OpBlock [OpLine ''console.log('condition true')''],
         OpLine ''} else {'',
         OpBlock [OpLine ''console.log('condition false')''],
         OpLine ''}''],
      OpLine ''}''] New)
   = (Returned,
      ''function example() {\<newline>  if (condition) {\<newline>    console.log('condition true')\<newline>  } else {\<newline>    console.log('condition false')\<newline>  }\<newline>}\<newline>'')"
  by (simp add: eval_defs)

lemma test_TypeScriptInterface:
  "map_prod id String (run_ops
     [OpWithSpaces 2,
      OpLinef ''interface %s {'' [GoString ''User''],
      OpIndent,
      OpLinef ''id: %s'' [GoString ''string''],
      OpLinef ''age: %s'' [GoString ''number''],
      OpDedent,
      OpLine ''}''] New)
   = (Returned, ''interface User {\<newline>  id: string\<newline>  age: number\<newline>}\<newline>'')"
  by (simp add: eval_defs)

lemma test_Sublines:
  "map_prod id String (run_ops
     [OpWithSpaces 2,
      OpLine ''function test() {'',
      OpBlock [OpLine ''console.log('hello')\<newline>console.log('world')''],
      OpLine ''}''] New)
   = (Returned, ''function test() {\<newline>  console.log('hello')\<newline>  console.log('world')\<newline>}\<newline>'')"
  by (simp add: eval_defs)

lemma test_InlineContinuation:
  "map_prod id String (run_ops
     [OpWithSpaces 2, OpLine ''const x = '', OpIndent, OpInline ''1'', OpInline '' + '', OpInline ''2;''] New)
   = (Returned, ''const x = \<newline>  1 + 2;'')"
  by (simp add: eval_defs)

lemma test_EmptyLines:
  "map_prod id String (run_ops
     [OpWithSpaces 2, OpLine ''// This is a comment'', OpBreak, OpBreak, OpLine ''// This is other comment''] New)
   = (Returned, ''// This is a comment\<newline>\<newline>\<newline>// This is other comment\<newline>'')"
  by (simp add: eval_defs)

lemma test_WithTabs_after_WithSpaces:
  "map_prod id String (run_ops
     [OpWithSpaces 2, OpWithTabs, OpLine ''if (true) {'', OpIndent,
      OpLine ''console.log('hello')'', OpDedent, OpLine ''}''] New)
   = (Returned, ''if (true) {'' @ [newline, CHR 0x09] @ ''console.log('hello')\<newline>}\<newline>'')"
  by (simp add: eval_defs)

end
